theory Spec2Isabelle
  imports Main
begin

section \<open>Strings of the setup script\<close>

text \<open>
  The script works on Python \<open>str\<close> values. A \<open>str\<close> is modelled as a \<open>string\<close>, one
  \<open>char\<close> per code point, so the development covers file names and texts whose code
  points lie below 256; \<open>length\<close> is Python's \<open>len\<close>.
\<close>

definition NL :: char where
  "NL = CHR 0x0A"

definition isspace :: "char \<Rightarrow> bool" where
  \<comment> \<open>\<open>str.isspace\<close> on one code point below 256: TAB, LF, VT, FF, CR, FS, GS, RS, US,
      space, NEL and the no-break space.\<close>
  "isspace c =
     (let n = (of_char c :: nat)
      in (9 \<le> n \<and> n \<le> 13) \<or> (28 \<le> n \<and> n \<le> 32) \<or> n = 133 \<or> n = 160)"

definition strip :: "string \<Rightarrow> string" where
  \<comment> \<open>\<open>s.strip()\<close>: leading and trailing white space removed.\<close>
  "strip s = rev (dropWhile isspace (rev (dropWhile isspace s)))"

definition lower_char :: "char \<Rightarrow> char" where
  \<comment> \<open>\<open>str.lower\<close> on one code point below 256: A-Z and the accented capitals
      (0xC0-0xDE without the multiplication sign 0xD7) move up by 32.\<close>
  "lower_char c =
     (let n = (of_char c :: nat)
      in if (65 \<le> n \<and> n \<le> 90) \<or> (192 \<le> n \<and> n \<le> 214) \<or> (216 \<le> n \<and> n \<le> 222)
         then char_of (n + 32) else c)"

definition lower :: "string \<Rightarrow> string" where
  "lower s = map lower_char s"

fun startswith :: "string \<Rightarrow> string \<Rightarrow> bool" where
  \<comment> \<open>\<open>startswith s p\<close> is \<open>s.startswith(p)\<close>.\<close>
  "startswith s [] = True"
| "startswith [] (p # ps) = False"
| "startswith (c # cs) (p # ps) = (c = p \<and> startswith cs ps)"

fun str_in :: "string \<Rightarrow> string \<Rightarrow> bool" where
  \<comment> \<open>\<open>str_in sub s\<close> is Python's \<open>sub in s\<close>.\<close>
  "str_in sub [] = (sub = [])"
| "str_in sub (c # cs) = (startswith (c # cs) sub \<or> str_in sub cs)"

definition contains :: "string \<Rightarrow> string \<Rightarrow> bool" where
  \<comment> \<open>\<open>sub\<close> occurs in \<open>s\<close> as a substring\<close>
  "contains s sub \<longleftrightarrow> (\<exists>p q. s = p @ sub @ q)"

fun split_nl :: "string \<Rightarrow> string list" where
  \<comment> \<open>\<open>text.split("\n")\<close>: never empty, one more field than there are newlines.\<close>
  "split_nl [] = [[]]"
| "split_nl (c # cs) =
     (if c = NL then [] # split_nl cs
      else (case split_nl cs of [] \<Rightarrow> [[c]] | l # ls \<Rightarrow> (c # l) # ls))"

definition replace_dot :: "string \<Rightarrow> string" where
  \<comment> \<open>\<open>name.replace(".", "_")\<close>\<close>
  "replace_dot s = map (\<lambda>c. if c = CHR ''.'' then CHR ''_'' else c) s"

definition digit_char :: "nat \<Rightarrow> char" where
  "digit_char d = char_of (48 + d)"

fun str_of_nat :: "nat \<Rightarrow> string" where
  \<comment> \<open>the decimal rendering of a non-negative \<open>int\<close> in an f-string\<close>
  "str_of_nat n =
     (if n < 10 then [digit_char n] else str_of_nat (n div 10) @ [digit_char (n mod 10)])"

section \<open>Document type of a file name\<close>

definition infer_doc_type :: "string \<Rightarrow> string" where
  "infer_doc_type filename =
     (let f = lower filename
      in if str_in ''gdpr'' f then ''GDPR''
         else if str_in ''hipaa'' f then ''HIPAA''
         else if str_in ''soc2'' f then ''SOC2''
         else ''General'')"

section \<open>Chunking one file\<close>

definition CHUNK_SIZE :: int where
  "CHUNK_SIZE = 150"

record meta =
  filename :: string
  document_type :: string
  chunk_index :: nat

text \<open>The variables of the loop over the lines of one file.\<close>

record chunk_state =
  chunks :: "string list"
  ids :: "string list"
  metas :: "meta list"
  current :: string
  chunk_idx :: nat

definition init_state :: chunk_state where
  "init_state = \<lparr>chunks = [], ids = [], metas = [], current = [], chunk_idx = 0\<rparr>"

definition chunk_id :: "string \<Rightarrow> nat \<Rightarrow> string" where
  \<comment> \<open>the f-string \<open>{safe_name}_{chunk_idx}\<close>\<close>
  "chunk_id name i = replace_dot name @ ''_'' @ str_of_nat i"

definition append_chunk :: "string \<Rightarrow> string \<Rightarrow> string \<Rightarrow> chunk_state \<Rightarrow> chunk_state" where
  \<comment> \<open>the three \<open>append\<close> calls, which both the loop and the leftover branch make\<close>
  "append_chunk name doc_type chunk_text st =
     st\<lparr>chunks := chunks st @ [chunk_text],
        ids := ids st @ [chunk_id name (chunk_idx st)],
        metas := metas st @
          [\<lparr>filename = name, document_type = doc_type, chunk_index = chunk_idx st\<rparr>]\<rparr>"

definition loop_body :: "int \<Rightarrow> string \<Rightarrow> string \<Rightarrow> string \<Rightarrow> chunk_state \<Rightarrow> chunk_state" where
  \<comment> \<open>one turn of \<open>for line in lines\<close>; \<open>target_size\<close> stands for the constant the
      script compares with\<close>
  "loop_body target_size name doc_type line st =
     (let cur = current st @ line @ [NL]
      in if target_size \<le> int (length cur)
         then (let chunk_text = strip cur;
                   st1 = (if chunk_text \<noteq> []
                          then (append_chunk name doc_type chunk_text st)
                                 \<lparr>chunk_idx := chunk_idx st + 1\<rparr>
                          else st)
               in st1\<lparr>current := []\<rparr>)
         else st\<lparr>current := cur\<rparr>)"

definition leftover :: "string \<Rightarrow> string \<Rightarrow> chunk_state \<Rightarrow> chunk_state" where
  \<comment> \<open>the branch after the loop: \<open>if current.strip(): ...\<close>\<close>
  "leftover name doc_type st =
     (if strip (current st) \<noteq> []
      then append_chunk name doc_type (strip (current st)) st
      else st)"

definition chunk_file :: "int \<Rightarrow> string \<Rightarrow> string \<Rightarrow> chunk_state" where
  "chunk_file target_size name text =
     (let doc_type = infer_doc_type name;
          lines = split_nl text
      in leftover name doc_type (fold (loop_body target_size name doc_type) lines init_state))"

definition process_file :: "string \<Rightarrow> string \<Rightarrow> chunk_state" where
  \<comment> \<open>the script itself, which compares with \<open>CHUNK_SIZE\<close>\<close>
  "process_file name text = chunk_file CHUNK_SIZE name text"

section \<open>Inserting the chunks of one file\<close>

text \<open>
  \<open>collection.add\<close> belongs to the vector store, so it is a parameter. From a store and
  one (id, document, metadata) triple it either returns, leaving a new store, or raises.
  What it raises is either derived from \<open>Exception\<close>, which the handler
  \<open>except Exception\<close> catches, or it is another \<open>BaseException\<close> (\<open>KeyboardInterrupt\<close>,
  \<open>SystemExit\<close>, a panic of the store's native code), which the handler lets through.
  A call that raises is taken to leave the store as it was.
\<close>

datatype ('s, 'e, 'b) outcome =
  is_Added: Added 's | is_Raised: Raised 'e | is_Escaped: Escaped 'b

text \<open>
  The subscripts \<open>ids[i]\<close> and \<open>metas[i]\<close> are evaluated inside the \<open>try\<close>, so an index
  out of range is an \<open>IndexError\<close> there, caught like the exceptions of the store.
\<close>

datatype 'e exn = IndexError | StoreError 'e

record ('s, 'e) insert_state =
  store :: 's
  inserted :: nat
  warnings :: "(nat \<times> 'e exn) list"

definition try_add ::
  "('s \<Rightarrow> string \<times> string \<times> meta \<Rightarrow> ('s, 'e, 'b) outcome) \<Rightarrow>
   string list \<Rightarrow> string list \<Rightarrow> meta list \<Rightarrow> 's \<Rightarrow> nat \<Rightarrow> ('s, 'e exn, 'b) outcome" where
  \<comment> \<open>the body of the \<open>try\<close> up to the return of \<open>collection.add\<close>\<close>
  "try_add add cs ks ms s i =
     (if i < length ks \<and> i < length cs \<and> i < length ms
      then (case add s (ks ! i, cs ! i, ms ! i) of
              Added s' \<Rightarrow> Added s'
            | Raised e \<Rightarrow> Raised (StoreError e)
            | Escaped b \<Rightarrow> Escaped b)
      else Raised IndexError)"

text \<open>
  The loop either runs to its end or is left by an exception that the handler does not
  catch; the state is then the one reached when the exception was raised.
\<close>

datatype ('s, 'e, 'b) loop_result =
  Finished "('s, 'e) insert_state" | Aborted 'b "('s, 'e) insert_state"

fun insert_loop ::
  "('s \<Rightarrow> string \<times> string \<times> meta \<Rightarrow> ('s, 'e, 'b) outcome) \<Rightarrow>
   string list \<Rightarrow> string list \<Rightarrow> meta list \<Rightarrow> nat list \<Rightarrow>
   ('s, 'e) insert_state \<Rightarrow> ('s, 'e, 'b) loop_result" where
  \<comment> \<open>the turns of the loop for the given values of \<open>i\<close>: \<open>inserted += 1\<close> after a call
      that returns, the warning of the \<open>except\<close> branch after a caught exception\<close>
  "insert_loop add cs ks ms [] st = Finished st"
| "insert_loop add cs ks ms (i # rest) st =
     (case try_add add cs ks ms (store st) i of
        Added s' \<Rightarrow> insert_loop add cs ks ms rest (st\<lparr>store := s', inserted := inserted st + 1\<rparr>)
      | Raised e \<Rightarrow> insert_loop add cs ks ms rest (st\<lparr>warnings := warnings st @ [(i, e)]\<rparr>)
      | Escaped b \<Rightarrow> Aborted b st)"

definition insert_start :: "'s \<Rightarrow> ('s, 'e) insert_state" where
  \<comment> \<open>\<open>inserted = 0\<close>, nothing printed yet\<close>
  "insert_start s0 = \<lparr>store = s0, inserted = 0, warnings = []\<rparr>"

definition insert_chunks ::
  "('s \<Rightarrow> string \<times> string \<times> meta \<Rightarrow> ('s, 'e, 'b) outcome) \<Rightarrow>
   string list \<Rightarrow> string list \<Rightarrow> meta list \<Rightarrow> 's \<Rightarrow> ('s, 'e, 'b) loop_result" where
  \<comment> \<open>\<open>for i in range(len(chunks))\<close>\<close>
  "insert_chunks add cs ks ms s0 = insert_loop add cs ks ms [0..<length cs] (insert_start s0)"

text \<open>
  Three stores for the examples. Each keeps the list of the identifiers added so far. The
  first refuses the document \<open>B\<close> with an exception derived from \<open>Exception\<close>; the second
  holds two entries and refuses any further one, so whether it raises depends on its
  state; the third is interrupted while it adds the document \<open>B\<close>.
\<close>

definition rejecting_add ::
  "string list \<Rightarrow> string \<times> string \<times> meta \<Rightarrow> (string list, string, string) outcome" where
  "rejecting_add s x =
     (if fst (snd x) = ''B'' then Raised ''ValueError'' else Added (s @ [fst x]))"

definition bounded_add ::
  "string list \<Rightarrow> string \<times> string \<times> meta \<Rightarrow> (string list, string, string) outcome" where
  "bounded_add s x =
     (if 2 \<le> length s then Raised ''StoreCapacityExceeded'' else Added (s @ [fst x]))"

definition interrupted_add ::
  "string list \<Rightarrow> string \<times> string \<times> meta \<Rightarrow> (string list, string, string) outcome" where
  "interrupted_add s x =
     (if fst (snd x) = ''B'' then Escaped ''KeyboardInterrupt'' else Added (s @ [fst x]))"

definition example_chunks :: "string list" where
  "example_chunks = [''A'', ''B'', ''C'']"

definition example_ids :: "string list" where
  "example_ids = [''f_txt_0'', ''f_txt_1'', ''f_txt_2'']"

definition example_metas :: "meta list" where
  "example_metas =
     [\<lparr>filename = ''f.txt'', document_type = ''General'', chunk_index = 0\<rparr>,
      \<lparr>filename = ''f.txt'', document_type = ''General'', chunk_index = 1\<rparr>,
      \<lparr>filename = ''f.txt'', document_type = ''General'', chunk_index = 2\<rparr>]"

section \<open>The chunker as the specification words it\<close>

definition unlines :: "string list \<Rightarrow> string" where
  \<comment> \<open>the lines of a run, each followed by the newline the chunker appends\<close>
  "unlines ls = concat (map (\<lambda>l. l @ [NL]) ls)"

fun group_lines :: "int \<Rightarrow> string list \<Rightarrow> string list \<Rightarrow> string list list \<times> string list" where
  \<comment> \<open>Consecutive lines are gathered in \<open>acc\<close> until their character count reaches
      \<open>target_size\<close>; the run is then closed and a new one starts. The result is the
      closed runs and the final remainder.\<close>
  "group_lines target_size acc [] = ([], acc)"
| "group_lines target_size acc (l # ls) =
     (if target_size \<le> int (length (unlines (acc @ [l])))
      then (case group_lines target_size [] ls of (closed, rest) \<Rightarrow> ((acc @ [l]) # closed, rest))
      else group_lines target_size (acc @ [l]) ls)"

definition spec_chunks :: "int \<Rightarrow> string \<Rightarrow> string list" where
  \<comment> \<open>Every closed run and then the remainder, trimmed; what is empty after trimming
      is dropped.\<close>
  "spec_chunks target_size text =
     (case group_lines target_size [] (split_nl text) of
        (closed, rest) \<Rightarrow>
          filter (\<lambda>c. c \<noteq> []) (map (\<lambda>g. strip (unlines g)) (closed @ [rest])))"

section \<open>Numbering of identifiers and metadata\<close>

text \<open>The identifiers and metadata are numbered along with the chunks.\<close>

definition numbered :: "string \<Rightarrow> string \<Rightarrow> chunk_state \<Rightarrow> bool" where
  "numbered name dt st \<longleftrightarrow>
     ids st = map (chunk_id name) [0..<length (chunks st)] \<and>
     metas st = map (\<lambda>i. \<lparr>filename = name, document_type = dt, chunk_index = i\<rparr>)
                  [0..<length (chunks st)]"

section \<open>Facts about the string operations\<close>

lemma isspace_NL: "isspace NL"
  by (simp add: isspace_def NL_def)

lemma filter_dropWhile_not: "filter (\<lambda>c. \<not> P c) (dropWhile P xs) = filter (\<lambda>c. \<not> P c) xs"
  by (induction xs) auto

lemma filter_strip: "filter (\<lambda>c. \<not> isspace c) (strip s) = filter (\<lambda>c. \<not> isspace c) s"
proof -
  have "filter (\<lambda>c. \<not> isspace c) (strip s)
        = rev (filter (\<lambda>c. \<not> isspace c) (dropWhile isspace (rev (dropWhile isspace s))))"
    by (simp add: strip_def rev_filter)
  also have "\<dots> = rev (filter (\<lambda>c. \<not> isspace c) (rev (dropWhile isspace s)))"
    by (simp only: filter_dropWhile_not)
  also have "\<dots> = filter (\<lambda>c. \<not> isspace c) (dropWhile isspace s)"
    by (simp add: rev_filter)
  finally show ?thesis
    by (simp only: filter_dropWhile_not)
qed

lemma strip_eq_Nil: "strip s = [] \<longleftrightarrow> (\<forall>c \<in> set s. isspace c)"
proof
  assume "strip s = []"
  then have "filter (\<lambda>c. \<not> isspace c) s = []"
    using filter_strip [of s] by simp
  then show "\<forall>c \<in> set s. isspace c"
    by (simp add: filter_empty_conv)
next
  assume "\<forall>c \<in> set s. isspace c"
  then have "dropWhile isspace s = []" by (metis dropWhile_eq_Nil_conv)
  then have "strip s = rev (dropWhile isspace (rev []))" by (simp only: strip_def)
  then show "strip s = []" by simp
qed

lemma strip_ends:
  assumes "strip s \<noteq> []"
  shows "\<not> isspace (hd (strip s))" and "\<not> isspace (last (strip s))"
proof -
  let ?d = "dropWhile isspace s"
  let ?e = "dropWhile isspace (rev ?d)"
  from assms have e: "?e \<noteq> []" by (simp add: strip_def)
  have d: "?d \<noteq> []"
  proof
    assume "?d = []"
    then have "?e = []" by (simp only: rev.simps dropWhile.simps)
    with e show False ..
  qed
  have "\<not> isspace (hd ?e)" using e by (rule hd_dropWhile)
  then show "\<not> isspace (last (strip s))"
    using e by (simp add: strip_def last_rev)
  have hd_d: "\<not> isspace (hd ?d)" using d by (rule hd_dropWhile)
  have "\<exists>zs. rev ?d = zs @ ?e" 
    by (metis takeWhile_dropWhile_id)
  then obtain zs where "rev ?d = zs @ ?e" ..
  then have "?d = rev ?e @ rev zs" by (metis rev_append rev_rev_ident)
  then have "hd ?d = hd (rev ?e)" using e by (metis hd_append2 rev_is_Nil_conv)
  with hd_d show "\<not> isspace (hd (strip s))" by (simp add: strip_def)
qed

lemma strip_id: "s \<noteq> [] \<Longrightarrow> \<not> isspace (hd s) \<Longrightarrow> \<not> isspace (last s) \<Longrightarrow> strip s = s"
proof -
  assume s: "s \<noteq> []" and h: "\<not> isspace (hd s)" and l: "\<not> isspace (last s)"
  from s h have 1: "dropWhile isspace s = s" by (cases s) auto
  from s l have 2: "dropWhile isspace (rev s) = rev s" by (cases "rev s") (auto simp: last_rev [symmetric] hd_rev)
  show ?thesis by (simp add: strip_def 1 2)
qed

lemma strip_strip: "strip (strip s) = strip s"
proof (cases "strip s = []")
  case True
  have "strip [] = []" by (simp add: strip_def)
  with True show ?thesis by simp
next
  case False
  then show ?thesis by (simp add: strip_id strip_ends)
qed

lemma unlines_append: "unlines (xs @ ys) = unlines xs @ unlines ys"
  by (simp add: unlines_def)

lemma unlines_Nil: "unlines [] = []"
  by (simp add: unlines_def)

lemma unlines_single: "unlines [l] = l @ [NL]"
  by (simp add: unlines_def)

lemma split_nl_not_Nil: "split_nl s \<noteq> []"
  by (induction s) (auto split: list.splits)

lemma unlines_split_nl: "unlines (split_nl s) = s @ [NL]"
proof (induction s)
  case Nil
  show ?case by (simp add: unlines_def)
next
  case (Cons c cs)
  then show ?case
    using split_nl_not_Nil [of cs]
    by (auto simp: unlines_def split: list.splits)
qed

lemma split_nl_single: "NL \<notin> set s \<Longrightarrow> split_nl s = [s]"
  by (induction s) auto

lemma split_nl_append_NL: "NL \<notin> set s \<Longrightarrow> split_nl (s @ [NL]) = [s, []]"
  by (induction s) auto

section \<open>The loop over the lines\<close>

lemma group_lines_concat:
  "group_lines t acc ls = (closed, rest) \<Longrightarrow> concat closed @ rest = acc @ ls"
proof (induction ls arbitrary: acc closed rest)
  case Nil
  then show ?case by simp
next
  case (Cons l ls)
  show ?case
  proof (cases "t \<le> int (length (unlines (acc @ [l])))")
    case True
    obtain c r where cr: "group_lines t [] ls = (c, r)" by (cases "group_lines t [] ls")
    with True Cons.prems have "closed = (acc @ [l]) # c" "rest = r" by auto
    moreover from Cons.IH [OF cr] have "concat c @ r = ls" by simp
    ultimately show ?thesis by simp
  next
    case False
    with Cons.prems have "group_lines t (acc @ [l]) ls = (closed, rest)" by simp
    from Cons.IH [OF this] show ?thesis by simp
  qed
qed

lemma fold_loop_body:
  "current st = unlines acc \<Longrightarrow> group_lines t acc ls = (closed, rest) \<Longrightarrow>
   chunks (fold (loop_body t name dt) ls st)
     = chunks st @ filter (\<lambda>c. c \<noteq> []) (map (\<lambda>g. strip (unlines g)) closed)
   \<and> current (fold (loop_body t name dt) ls st) = unlines rest"
proof (induction ls arbitrary: st acc closed rest)
  case Nil
  then show ?case by simp
next
  case (Cons l ls)
  have cur: "current st @ l @ [NL] = unlines (acc @ [l])"
    using Cons.prems(1) by (simp add: unlines_def)
  show ?case
  proof (cases "t \<le> int (length (unlines (acc @ [l])))")
    case True
    obtain c r where cr: "group_lines t [] ls = (c, r)" by (cases "group_lines t [] ls")
    with True Cons.prems have cl: "closed = (acc @ [l]) # c" and re: "rest = r" by auto
    let ?st = "loop_body t name dt l st"
    have c0: "current ?st = unlines []"
      using True cur by (simp add: loop_body_def Let_def unlines_def)
    have ch: "chunks ?st = chunks st @ filter (\<lambda>c. c \<noteq> []) [strip (unlines (acc @ [l]))]"
      using True cur by (simp add: loop_body_def Let_def append_chunk_def)
    from Cons.IH [OF c0 cr] ch show ?thesis
      by (simp add: cl re)
  next
    case False
    with Cons.prems have g: "group_lines t (acc @ [l]) ls = (closed, rest)" by simp
    let ?st = "loop_body t name dt l st"
    have c0: "current ?st = unlines (acc @ [l])"
      using False cur by (simp add: loop_body_def Let_def)
    have ch: "chunks ?st = chunks st"
      using False cur by (simp add: loop_body_def Let_def)
    from Cons.IH [OF c0 g] ch show ?thesis by simp
  qed
qed

lemma chunks_leftover:
  "chunks (leftover name dt st) = chunks st @ filter (\<lambda>c. c \<noteq> []) [strip (current st)]"
  by (simp add: leftover_def append_chunk_def)

lemma chunks_chunk_file: "chunks (chunk_file t name text) = spec_chunks t text"
proof -
  obtain closed rest where g: "group_lines t [] (split_nl text) = (closed, rest)"
    by (cases "group_lines t [] (split_nl text)")
  have "current init_state = unlines []" by (simp add: init_state_def unlines_def)
  from fold_loop_body [OF this g, of name "infer_doc_type name"]
  show ?thesis
    by (simp add: chunk_file_def Let_def chunks_leftover spec_chunks_def g init_state_def)
qed

lemma numbered_append_chunk:
  "numbered name dt st \<Longrightarrow> chunk_idx st = length (chunks st) \<Longrightarrow>
   numbered name dt (append_chunk name dt c st)"
  by (simp add: numbered_def append_chunk_def)

lemma numbered_loop_body:
  "numbered name dt st \<and> chunk_idx st = length (chunks st) \<Longrightarrow>
   numbered name dt (loop_body t name dt l st)
   \<and> chunk_idx (loop_body t name dt l st) = length (chunks (loop_body t name dt l st))"
  by (simp add: loop_body_def Let_def numbered_def append_chunk_def)

lemma numbered_fold:
  "numbered name dt st \<and> chunk_idx st = length (chunks st) \<Longrightarrow>
   numbered name dt (fold (loop_body t name dt) ls st)
   \<and> chunk_idx (fold (loop_body t name dt) ls st)
       = length (chunks (fold (loop_body t name dt) ls st))"
proof (induction ls arbitrary: st)
  case Nil
  then show ?case by simp
next
  case (Cons l ls)
  from Cons.IH [OF numbered_loop_body [OF Cons.prems]] show ?case by simp
qed

lemma numbered_chunk_file: "numbered name (infer_doc_type name) (chunk_file t name text)"
proof -
  let ?dt = "infer_doc_type name"
  let ?st = "fold (loop_body t name ?dt) (split_nl text) init_state"
  have "numbered name ?dt init_state \<and> chunk_idx init_state = length (chunks init_state)"
    by (simp add: numbered_def init_state_def)
  then have "numbered name ?dt ?st \<and> chunk_idx ?st = length (chunks ?st)"
    by (rule numbered_fold)
  then have "numbered name ?dt (leftover name ?dt ?st)"
    by (simp add: leftover_def numbered_append_chunk)
  then show ?thesis by (simp add: chunk_file_def Let_def)
qed

lemma group_lines_runs:
  "group_lines t acc ls = (closed, rest) \<Longrightarrow>
   (acc \<noteq> [] \<longrightarrow> int (length (unlines acc)) < t) \<Longrightarrow>
   (\<forall>g \<in> set closed. g \<noteq> [] \<and> t \<le> int (length (unlines g)) \<and>
       (butlast g \<noteq> [] \<longrightarrow> int (length (unlines (butlast g))) < t))
   \<and> (rest \<noteq> [] \<longrightarrow> int (length (unlines rest)) < t)"
proof (induction ls arbitrary: acc closed rest)
  case Nil
  then show ?case by simp
next
  case (Cons l ls)
  show ?case
  proof (cases "t \<le> int (length (unlines (acc @ [l])))")
    case True
    obtain c r where cr: "group_lines t [] ls = (c, r)" by (cases "group_lines t [] ls")
    with True Cons.prems have cl: "closed = (acc @ [l]) # c" and re: "rest = r" by auto
    from Cons.IH [OF cr] have ih:
      "(\<forall>g \<in> set c. g \<noteq> [] \<and> t \<le> int (length (unlines g)) \<and>
          (butlast g \<noteq> [] \<longrightarrow> int (length (unlines (butlast g))) < t))
       \<and> (r \<noteq> [] \<longrightarrow> int (length (unlines r)) < t)"
      by simp
    from Cons.prems(2) have "butlast (acc @ [l]) \<noteq> [] \<longrightarrow>
        int (length (unlines (butlast (acc @ [l])))) < t" by simp
    with True ih show ?thesis by (simp add: cl re)
  next
    case False
    with Cons.prems have g: "group_lines t (acc @ [l]) ls = (closed, rest)" by simp
    from False have "acc @ [l] \<noteq> [] \<longrightarrow> int (length (unlines (acc @ [l]))) < t" by simp
    from Cons.IH [OF g this] show ?thesis .
  qed
qed

lemma strip_append_space: "isspace c \<Longrightarrow> strip (s @ [c]) = strip s"
proof (cases "\<forall>x \<in> set s. isspace x")
  case True
  assume "isspace c"
  with True have "\<forall>x \<in> set (s @ [c]). isspace x" by simp
  then have "strip (s @ [c]) = []" by (simp only: strip_eq_Nil)
  moreover from True have "strip s = []" by (simp only: strip_eq_Nil)
  ultimately show ?thesis by simp
next
  case False
  assume c: "isspace c"
  from False have "dropWhile isspace (s @ [c]) = dropWhile isspace s @ [c]"
    by auto
  then have "rev (dropWhile isspace (s @ [c])) = c # rev (dropWhile isspace s)" by simp
  then have "dropWhile isspace (rev (dropWhile isspace (s @ [c])))
             = dropWhile isspace (rev (dropWhile isspace s))"
    using c by simp
  then show ?thesis by (simp only: strip_def)
qed

lemma strip_Nil: "strip [] = []"
  by (simp add: strip_def)

lemma nonspace_chunks:
  "filter (\<lambda>c. \<not> isspace c) (concat (filter (\<lambda>c. c \<noteq> []) (map (\<lambda>g. strip (unlines g)) gs)))
   = filter (\<lambda>c. \<not> isspace c) (unlines (concat gs))"
proof (induction gs)
  case Nil
  show ?case by (simp add: unlines_Nil)
next
  case (Cons g gs)
  have "filter (\<lambda>c. \<not> isspace c) (strip (unlines g)) = filter (\<lambda>c. \<not> isspace c) (unlines g)"
    by (rule filter_strip)
  with Cons show ?case
    by (cases "strip (unlines g) = []") (simp_all add: unlines_append)
qed

lemma spec_chunks_trimmed: "c \<in> set (spec_chunks t text) \<Longrightarrow> strip c = c \<and> c \<noteq> []"
proof -
  assume c: "c \<in> set (spec_chunks t text)"
  obtain closed rest where g: "group_lines t [] (split_nl text) = (closed, rest)"
    by (cases "group_lines t [] (split_nl text)")
  from c have "c \<in> set (filter (\<lambda>c. c \<noteq> []) (map (\<lambda>g. strip (unlines g)) (closed @ [rest])))"
    by (simp only: spec_chunks_def g prod.case)
  then obtain x where "c = strip x" and "c \<noteq> []" by (auto split: if_splits)
  then show ?thesis by (simp add: strip_strip)
qed

lemma strip_NL: "strip [NL] = []"
  using isspace_NL by (simp add: strip_eq_Nil)

lemma spec_chunks_empty: "spec_chunks t [] = []"
  by (simp add: spec_chunks_def unlines_def strip_NL strip_Nil)

lemma group_lines_last_empty:
  "group_lines t [] [[]] = (closed, rest) \<Longrightarrow>
   filter (\<lambda>c. c \<noteq> []) (map (\<lambda>g. strip (unlines g)) (closed @ [rest])) = []"
  by (auto simp: unlines_def strip_NL strip_Nil split: if_splits)

lemma spec_chunks_single_line:
  assumes "NL \<notin> set line" and "t < int (length line)"
  shows "spec_chunks t line = filter (\<lambda>c. c \<noteq> []) [strip line]"
proof -
  have "t \<le> int (length (unlines ([] @ [line])))"
    using assms(2) by (simp add: unlines_def)
  then have "group_lines t [] [line] = ([[line]], [])" by simp
  moreover have "strip (unlines [line]) = strip line"
    using isspace_NL by (simp add: unlines_def strip_append_space)
  ultimately show ?thesis
    using assms(1) by (simp add: spec_chunks_def split_nl_single strip_Nil unlines_Nil)
qed

lemma spec_chunks_single_line_NL:
  assumes "NL \<notin> set line" and "t < int (length line)"
  shows "spec_chunks t (line @ [NL]) = filter (\<lambda>c. c \<noteq> []) [strip line]"
proof -
  obtain closed rest where g: "group_lines t [] [[]] = (closed, rest)"
    by (cases "group_lines t [] [[]]")
  have "t \<le> int (length (unlines ([] @ [line])))"
    using assms(2) by (simp add: unlines_def)
  then have "group_lines t [] [line, []] = ([line] # closed, rest)"
    using g by simp
  moreover have "strip (unlines [line]) = strip line"
    using isspace_NL by (simp add: unlines_def strip_append_space)
  moreover note group_lines_last_empty [OF g]
  ultimately show ?thesis
    using assms(1) by (simp add: spec_chunks_def split_nl_append_NL)
qed

lemma startswith_iff: "startswith s p \<longleftrightarrow> (\<exists>q. s = p @ q)"
  by (induction s p rule: startswith.induct) auto

lemma str_in_iff: "str_in sub s \<longleftrightarrow> contains s sub"
proof (induction s)
  case Nil
  show ?case by (auto simp: contains_def)
next
  case (Cons c cs)
  have "contains (c # cs) sub \<longleftrightarrow> (\<exists>q. c # cs = sub @ q) \<or> contains cs sub"
  proof
    assume "contains (c # cs) sub"
    then obtain p q where pq: "c # cs = p @ sub @ q" by (auto simp: contains_def)
    show "(\<exists>q. c # cs = sub @ q) \<or> contains cs sub"
    proof (cases p)
      case Nil
      with pq show ?thesis by auto
    next
      case (Cons a p')
      with pq have "cs = p' @ sub @ q" by simp
      then show ?thesis by (auto simp: contains_def)
    qed
  next
    assume "(\<exists>q. c # cs = sub @ q) \<or> contains cs sub"
    then show "contains (c # cs) sub"
    proof
      assume "\<exists>q. c # cs = sub @ q"
      then obtain q where "c # cs = [] @ sub @ q" by auto
      then show ?thesis unfolding contains_def by blast
    next
      assume "contains cs sub"
      then obtain p q where "cs = p @ sub @ q" by (auto simp: contains_def)
      then have "c # cs = (c # p) @ sub @ q" by simp
      then show ?thesis unfolding contains_def by blast
    qed
  qed
  with Cons show ?case by (simp add: startswith_iff)
qed



lemma lower_append: "lower (p @ q) = lower p @ lower q"
  by (simp add: lower_def)

lemma contains_lower:
  assumes "contains s sub" and "lower sub = sub"
  shows "contains (lower s) sub"
proof -
  from assms(1) obtain p q where "s = p @ sub @ q" by (auto simp: contains_def)
  then have "lower s = lower p @ sub @ lower q" by (simp add: lower_append assms(2))
  then show ?thesis unfolding contains_def by blast
qed

lemma infer_doc_type_cases:
  "infer_doc_type f =
     (if contains (lower f) ''gdpr'' then ''GDPR''
      else if contains (lower f) ''hipaa'' then ''HIPAA''
      else if contains (lower f) ''soc2'' then ''SOC2''
      else ''General'')"
  by (simp only: infer_doc_type_def Let_def str_in_iff)

section \<open>The insertion loop\<close>

lemma insert_loop_append:
  "insert_loop add cs ks ms (xs @ ys) st
   = (case insert_loop add cs ks ms xs st of
        Finished st' \<Rightarrow> insert_loop add cs ks ms ys st'
      | Aborted b st' \<Rightarrow> Aborted b st')"
  by (induction xs arbitrary: st) (simp_all split: outcome.splits)

lemma try_add_in_range:
  "i < length cs \<Longrightarrow> length ks = length cs \<Longrightarrow> length ms = length cs \<Longrightarrow>
   try_add add cs ks ms s i
   = (case add s (ks ! i, cs ! i, ms ! i) of
        Added s' \<Rightarrow> Added s' | Raised e \<Rightarrow> Raised (StoreError e) | Escaped b \<Rightarrow> Escaped b)"
  by (simp add: try_add_def)

lemma filter_eq_upt: "k < n \<Longrightarrow> filter (\<lambda>i. i = k) [0..<n] = [k]"
  by (induction n) (auto simp: less_Suc_eq)

lemma filter_neq_upt: "k < n \<Longrightarrow> filter (\<lambda>i. i \<noteq> k) [0..<n] = [0..<k] @ [Suc k..<n]"
proof (induction n)
  case 0
  then show ?case by simp
next
  case (Suc n)
  show ?case
  proof (cases "k = n")
    case True
    then have "filter (\<lambda>i. i \<noteq> k) [0..<n] = [0..<n]" by (auto intro: filter_True)
    with True show ?thesis by simp
  next
    case False
    with Suc.prems have "k < n" by simp
    with Suc.IH False show ?thesis by simp
  qed
qed

lemma insert_loop_prefix:
  assumes len: "length ks = length cs" "length ms = length cs"
    and run: "\<forall>i<length cs. \<forall>st. insert_loop add cs ks ms [0..<i] (insert_start s0) = Finished st \<longrightarrow>
        (if i = k then is_Raised (add (store st) (ks ! i, cs ! i, ms ! i))
         else is_Added (add (store st) (ks ! i, cs ! i, ms ! i)))"
  shows "n \<le> length cs \<Longrightarrow>
     \<exists>r. insert_loop add cs ks ms [0..<n] (insert_start s0) = Finished r \<and>
         inserted r = length (filter (\<lambda>i. i \<noteq> k) [0..<n]) \<and>
         map fst (warnings r) = filter (\<lambda>i. i = k) [0..<n] \<and>
         store r = fold (\<lambda>i s. case add s (ks ! i, cs ! i, ms ! i) of Added s' \<Rightarrow> s' | Raised e \<Rightarrow> s | Escaped b \<Rightarrow> s)
                     (filter (\<lambda>i. i \<noteq> k) [0..<n]) s0"
proof (induction n)
  case 0
  show ?case by (simp add: insert_start_def)
next
  case (Suc n)
  then have n: "n < length cs" by simp
  with Suc.IH obtain r where r: "insert_loop add cs ks ms [0..<n] (insert_start s0) = Finished r"
    and ins: "inserted r = length (filter (\<lambda>i. i \<noteq> k) [0..<n])"
    and war: "map fst (warnings r) = filter (\<lambda>i. i = k) [0..<n]"
    and sto: "store r = fold (\<lambda>i s. case add s (ks ! i, cs ! i, ms ! i) of Added s' \<Rightarrow> s' | Raised e \<Rightarrow> s | Escaped b \<Rightarrow> s)
                     (filter (\<lambda>i. i \<noteq> k) [0..<n]) s0"
    by auto
  from run n r have here:
    "if n = k then is_Raised (add (store r) (ks ! n, cs ! n, ms ! n))
     else is_Added (add (store r) (ks ! n, cs ! n, ms ! n))"
    by blast
  have step: "insert_loop add cs ks ms [0..<Suc n] (insert_start s0) = insert_loop add cs ks ms [n] r"
    by (simp add: insert_loop_append r)
  note t = try_add_in_range [OF n len, of add "store r"]
  show ?case
  proof (cases "n = k")
    case True
    with here obtain e where "add (store r) (ks ! n, cs ! n, ms ! n) = Raised e"
      by (auto simp: is_Raised_def)
    with t have "insert_loop add cs ks ms [n] r = Finished (r\<lparr>warnings := warnings r @ [(n, StoreError e)]\<rparr>)"
      by simp
    with step ins war sto True show ?thesis by simp
  next
    case False
    with here obtain s' where s': "add (store r) (ks ! n, cs ! n, ms ! n) = Added s'"
      by (auto simp: is_Added_def)
    with t have "insert_loop add cs ks ms [n] r = Finished (r\<lparr>store := s', inserted := inserted r + 1\<rparr>)"
      by simp
    with step ins war sto False s' show ?thesis by simp
  qed
qed

section \<open>The claims about the chunker\<close>

text \<open>
  C1. The chunker splits the text at the newlines and gathers consecutive lines, each
  with its appended newline, until the character count reaches \<open>target_size\<close>; the run
  is closed there, trimmed, and dropped when nothing is left of it; the final remainder,
  shorter than \<open>target_size\<close>, is emitted last exactly when it is non-empty after trimming.
\<close>

theorem chunker_accumulates_lines:
  "chunks (chunk_file target_size name text) = spec_chunks target_size text \<and>
   (case group_lines target_size [] (split_nl text) of
      (closed, rest) \<Rightarrow>
        concat closed @ rest = split_nl text \<and>
        (\<forall>g \<in> set closed. g \<noteq> [] \<and> target_size \<le> int (length (unlines g)) \<and>
           (butlast g \<noteq> [] \<longrightarrow> int (length (unlines (butlast g))) < target_size)) \<and>
        (rest \<noteq> [] \<longrightarrow> int (length (unlines rest)) < target_size) \<and>
        chunks (chunk_file target_size name text) =
          filter (\<lambda>c. c \<noteq> []) (map (\<lambda>g. strip (unlines g)) closed) @
          (if strip (unlines rest) \<noteq> [] then [strip (unlines rest)] else []))"
proof -
  obtain closed rest where g: "group_lines target_size [] (split_nl text) = (closed, rest)"
    by (cases "group_lines target_size [] (split_nl text)")
  have 1: "chunks (chunk_file target_size name text) = spec_chunks target_size text"
    by (rule chunks_chunk_file)
  have 2: "concat closed @ rest = split_nl text"
    using group_lines_concat [OF g] by simp
  have 3: "(\<forall>g \<in> set closed. g \<noteq> [] \<and> target_size \<le> int (length (unlines g)) \<and>
           (butlast g \<noteq> [] \<longrightarrow> int (length (unlines (butlast g))) < target_size)) \<and>
        (rest \<noteq> [] \<longrightarrow> int (length (unlines rest)) < target_size)"
    using group_lines_runs [OF g] by simp
  have 4: "spec_chunks target_size text =
          filter (\<lambda>c. c \<noteq> []) (map (\<lambda>g. strip (unlines g)) closed) @
          (if strip (unlines rest) \<noteq> [] then [strip (unlines rest)] else [])"
    by (simp add: spec_chunks_def g)
  from 1 2 3 4 show ?thesis by (simp add: g)
qed

theorem chunker_accumulates_lines_witness:
  "chunks (chunk_file 4 ''a.txt'' ''ab\<newline>  \<newline>    \<newline>cdef\<newline>e'') = [''ab'', ''cdef'', ''e''] \<and>
   group_lines 4 [] (split_nl ''ab\<newline>  \<newline>    \<newline>cdef\<newline>e'')
     = ([[''ab'', ''  ''], [''    ''], [''cdef'']], [''e'']) \<and>
   [''ab'', ''  ''] \<in> set [[''ab'', ''  ''], [''    ''], [''cdef'']] \<and>
   (4::int) \<le> int (length (unlines [''ab'', ''  ''])) \<and>
   butlast [''ab'', ''  ''] \<noteq> [] \<and>
   int (length (unlines (butlast [''ab'', ''  '']))) < 4 \<and>
   [''e''] \<noteq> [] \<and> int (length (unlines [''e''])) < 4 \<and>
   strip (unlines [''    '']) = [] \<and> strip (unlines [''e'']) = ''e''"
  using chunker_accumulates_lines [of 4 "''a.txt''" "''ab\<newline>  \<newline>    \<newline>cdef\<newline>e''"]
  by code_simp

text \<open>
  C2. The text of the three lines A, B and C, each ended by a newline, chunked with
  \<open>target_size = 3\<close>, gives the two chunks \<open>A\<newline>B\<close> and \<open>C\<close>, in this order, whatever the
  file is called.
\<close>

theorem boundary_example:
  "chunks (chunk_file 3 name ''A\<newline>B\<newline>C\<newline>'') = [''A\<newline>B'', ''C'']"
proof -
  have "spec_chunks 3 ''A\<newline>B\<newline>C\<newline>'' = [''A\<newline>B'', ''C'']"
    by code_simp
  then show ?thesis by (simp only: chunks_chunk_file)
qed

text \<open>
  C3. The chunker is a function of its inputs: the chunk texts are determined by the text
  and \<open>target_size\<close> alone (the file name plays no part), and the identifier of the
  chunk at position \<open>i\<close> is built from the file name and \<open>i\<close> only. Both lists are
  complete before the first call of the store, so no insertion can change them.
\<close>

theorem chunking_deterministic:
  "chunks (chunk_file target_size name text) = spec_chunks target_size text \<and>
   ids (chunk_file target_size name text)
     = map (\<lambda>i. replace_dot name @ ''_'' @ str_of_nat i)
         [0..<length (spec_chunks target_size text)]"
proof -
  have "numbered name (infer_doc_type name) (chunk_file target_size name text)"
    by (rule numbered_chunk_file)
  then have "ids (chunk_file target_size name text)
     = map (chunk_id name) [0..<length (chunks (chunk_file target_size name text))]"
    by (simp add: numbered_def)
  then show ?thesis
    by (simp add: chunks_chunk_file chunk_id_def)
qed

text \<open>
  C6. Every chunk is non-empty and already trimmed, so its character count is at least 1;
  the \<open>chunk_index\<close> values of the metadata are 0, 1, ..., n-1 in this order, one per
  chunk, hence without gap or repetition.
\<close>

theorem chunk_invariants:
  "(\<forall>c \<in> set (chunks (chunk_file target_size name text)). strip c = c \<and> 1 \<le> length c) \<and>
   map chunk_index (metas (chunk_file target_size name text))
     = [0..<length (chunks (chunk_file target_size name text))] \<and>
   distinct (map chunk_index (metas (chunk_file target_size name text))) \<and>
   length (ids (chunk_file target_size name text))
     = length (chunks (chunk_file target_size name text))"
proof -
  let ?r = "chunk_file target_size name text"
  have n: "numbered name (infer_doc_type name) ?r"
    by (rule numbered_chunk_file)
  have 1: "\<forall>c \<in> set (chunks ?r). strip c = c \<and> 1 \<le> length c"
  proof
    fix c assume "c \<in> set (chunks ?r)"
    then have "c \<in> set (spec_chunks target_size text)" by (simp only: chunks_chunk_file)
    then have "strip c = c \<and> c \<noteq> []" by (rule spec_chunks_trimmed)
    then show "strip c = c \<and> 1 \<le> length c" by (cases c) simp_all
  qed
  have 2: "map chunk_index (metas ?r) = [0..<length (chunks ?r)]"
    using n by (simp add: numbered_def comp_def)
  have 3: "distinct (map chunk_index (metas ?r))"
    by (simp only: 2 distinct_upt)
  have 4: "length (ids ?r) = length (chunks ?r)"
    using n by (simp add: numbered_def)
  from 1 2 3 4 show ?thesis by simp
qed

theorem chunk_invariants_witness:
  "chunks (chunk_file 4 ''a.txt'' ''ab\<newline>  \<newline>    \<newline>cdef\<newline>e'') = [''ab'', ''cdef'', ''e''] \<and>
   ''cdef'' \<in> set [''ab'', ''cdef'', ''e''] \<and> strip ''cdef'' = ''cdef'' \<and>
   (1::nat) \<le> length ''cdef'' \<and>
   map chunk_index (metas (chunk_file 4 ''a.txt'' ''ab\<newline>  \<newline>    \<newline>cdef\<newline>e'')) = [0, 1, 2]"
  using chunk_invariants [of 4 "''a.txt''" "''ab\<newline>  \<newline>    \<newline>cdef\<newline>e''"]
  by code_simp

text \<open>
  C10. The closed runs followed by the remainder are the lines of the text, in order;
  the chunks are these runs trimmed, without the ones that are empty after trimming; and
  the characters other than white space of the chunks, read in order, are those of the
  text.
\<close>

theorem chunking_loses_no_content:
  "(case group_lines target_size [] (split_nl text) of
      (closed, rest) \<Rightarrow>
        concat (closed @ [rest]) = split_nl text \<and>
        chunks (chunk_file target_size name text)
          = filter (\<lambda>c. c \<noteq> []) (map (\<lambda>g. strip (unlines g)) (closed @ [rest]))) \<and>
   filter (\<lambda>c. \<not> isspace c) (concat (chunks (chunk_file target_size name text)))
     = filter (\<lambda>c. \<not> isspace c) text"
proof -
  obtain closed rest where g: "group_lines target_size [] (split_nl text) = (closed, rest)"
    by (cases "group_lines target_size [] (split_nl text)")
  have 1: "concat (closed @ [rest]) = split_nl text"
    using group_lines_concat [OF g] by simp
  have 2: "chunks (chunk_file target_size name text)
          = filter (\<lambda>c. c \<noteq> []) (map (\<lambda>g. strip (unlines g)) (closed @ [rest]))"
    by (simp add: chunks_chunk_file spec_chunks_def g)
  have "filter (\<lambda>c. \<not> isspace c) (concat (chunks (chunk_file target_size name text)))
        = filter (\<lambda>c. \<not> isspace c) (unlines (concat (closed @ [rest])))"
    by (simp only: 2 nonspace_chunks)
  also have "\<dots> = filter (\<lambda>c. \<not> isspace c) (text @ [NL])"
    by (simp only: 1 unlines_split_nl)
  also have "\<dots> = filter (\<lambda>c. \<not> isspace c) text"
    by (simp add: isspace_NL)
  finally have 3: "filter (\<lambda>c. \<not> isspace c) (concat (chunks (chunk_file target_size name text)))
        = filter (\<lambda>c. \<not> isspace c) text" .
  from 1 2 3 show ?thesis by (simp add: g)
qed

text \<open>
  C4, as the code has it. The empty text gives no chunk, no identifier and no metadata.
  A text that is a single line longer than \<open>target_size\<close>, with or without its final
  newline, gives that line trimmed as the only chunk, whatever its length, unless the
  line is white space only: then it gives no chunk. A line that neither starts nor ends
  with white space is emitted unchanged.
\<close>

theorem chunker_edge_cases:
  "chunks (chunk_file target_size name []) = [] \<and>
   ids (chunk_file target_size name []) = [] \<and>
   metas (chunk_file target_size name []) = [] \<and>
   (NL \<notin> set line \<and> target_size < int (length line) \<and> (text = line \<or> text = line @ [NL]) \<longrightarrow>
      chunks (chunk_file target_size name text) = (if strip line = [] then [] else [strip line]) \<and>
      (\<not> isspace (hd line) \<and> \<not> isspace (last line) \<and> line \<noteq> [] \<longrightarrow>
         chunks (chunk_file target_size name text) = [line]))"
proof -
  let ?e = "chunk_file target_size name []"
  have 1: "chunks ?e = []"
    by (simp add: chunks_chunk_file spec_chunks_empty)
  have "numbered name (infer_doc_type name) ?e"
    by (rule numbered_chunk_file)
  with 1 have 2: "ids ?e = [] \<and> metas ?e = []"
    by (simp add: numbered_def)
  have 3: "chunks (chunk_file target_size name text) = (if strip line = [] then [] else [strip line])"
    if "NL \<notin> set line" "target_size < int (length line)" "text = line \<or> text = line @ [NL]"
    using that by (auto simp: chunks_chunk_file spec_chunks_single_line spec_chunks_single_line_NL)
  have 4: "strip line = line" if "\<not> isspace (hd line)" "\<not> isspace (last line)" "line \<noteq> []"
    using that by (simp add: strip_id)
  from 1 2 3 4 show ?thesis by auto
qed

theorem chunker_edge_cases_witness:
  "NL \<notin> set ''  abcdef '' \<and> (3::int) < int (length ''  abcdef '') \<and>
   chunks (chunk_file 3 ''a.txt'' ''  abcdef '') = [''abcdef''] \<and>
   chunks (chunk_file 3 ''a.txt'' ''  abcdef \<newline>'') = [''abcdef''] \<and>
   \<not> isspace (hd ''abcdef'') \<and> \<not> isspace (last ''abcdef'') \<and>
   chunks (chunk_file 3 ''a.txt'' ''abcdef'') = [''abcdef'']"
  using chunker_edge_cases [of 3 "''a.txt''" "''  abcdef ''" "''  abcdef ''"]
    chunker_edge_cases [of 3 "''a.txt''" "''  abcdef ''" "''  abcdef \<newline>''"]
    chunker_edge_cases [of 3 "''a.txt''" "''abcdef''" "''abcdef''"]
  by code_simp

text \<open>
  C4, as the claim words it, fails on a line of white space: five spaces are a single
  line longer than \<open>target_size = 3\<close>, and the chunker emits nothing for them.
\<close>

theorem chunker_oversized_line_counterexample:
  "NL \<notin> set ''     '' \<and> (3::int) < int (length ''     '') \<and>
   chunks (chunk_file 3 ''a.txt'' ''     '') = [] \<and>
   chunks (chunk_file 3 ''a.txt'' ''     '') \<noteq> [''     '']"
  by code_simp

text \<open>
  C8. The file names \<open>a.b.txt\<close> and \<open>a_b.txt\<close> differ, and yet for every text the two
  files get the same list of chunk identifiers; with one chunk each, both get
  \<open>a_b_txt_0\<close>.
\<close>

theorem chunk_ids_not_injective:
  "''a.b.txt'' \<noteq> ''a_b.txt'' \<and>
   ids (chunk_file target_size ''a.b.txt'' text) = ids (chunk_file target_size ''a_b.txt'' text) \<and>
   ids (process_file ''a.b.txt'' ''x'') = [''a_b_txt_0''] \<and>
   ids (process_file ''a_b.txt'' ''x'') = [''a_b_txt_0'']"
proof -
  have r: "replace_dot ''a.b.txt'' = replace_dot ''a_b.txt''"
    by (simp add: replace_dot_def)
  have n: "ids (chunk_file target_size name text)
       = map (chunk_id name) [0..<length (spec_chunks target_size text)]" for name
    using numbered_chunk_file [of name target_size "text"]
    by (simp add: numbered_def chunks_chunk_file)
  have "chunk_id ''a.b.txt'' = chunk_id ''a_b.txt''"
    by (rule ext) (simp only: chunk_id_def r)
  then have 1: "ids (chunk_file target_size ''a.b.txt'' text) = ids (chunk_file target_size ''a_b.txt'' text)"
    by (simp only: n)
  have 2: "ids (process_file ''a.b.txt'' ''x'') = [''a_b_txt_0'']"
    by code_simp
  have 3: "ids (process_file ''a_b.txt'' ''x'') = [''a_b_txt_0'']"
    by code_simp
  from 1 2 3 show ?thesis by simp
qed

section \<open>The claims about the document type\<close>

text \<open>
  C7, as the code has it. The keywords are looked for in the lowercased file name, in the
  order \<open>gdpr\<close>, \<open>hipaa\<close>, \<open>soc2\<close>: the result is \<open>GDPR\<close> when the lowercased
  name contains \<open>gdpr\<close>; otherwise \<open>HIPAA\<close> when it contains \<open>hipaa\<close>; otherwise
  \<open>SOC2\<close> when it contains \<open>soc2\<close>; otherwise \<open>General\<close>. In particular a name that
  itself contains \<open>gdpr\<close> is given \<open>GDPR\<close>.
\<close>

theorem infer_doc_type_by_substring:
  "(contains (lower fname) ''gdpr'' \<longrightarrow> infer_doc_type fname = ''GDPR'') \<and>
   (\<not> contains (lower fname) ''gdpr'' \<and> contains (lower fname) ''hipaa'' \<longrightarrow>
      infer_doc_type fname = ''HIPAA'') \<and>
   (\<not> contains (lower fname) ''gdpr'' \<and> \<not> contains (lower fname) ''hipaa'' \<and>
    contains (lower fname) ''soc2'' \<longrightarrow> infer_doc_type fname = ''SOC2'') \<and>
   (\<not> contains (lower fname) ''gdpr'' \<and> \<not> contains (lower fname) ''hipaa'' \<and>
    \<not> contains (lower fname) ''soc2'' \<longrightarrow> infer_doc_type fname = ''General'') \<and>
   (contains fname ''gdpr'' \<longrightarrow> infer_doc_type fname = ''GDPR'')"
proof -
  have "lower ''gdpr'' = ''gdpr''" by code_simp
  then have "contains fname ''gdpr'' \<longrightarrow> contains (lower fname) ''gdpr''"
    by (simp add: contains_lower)
  then show ?thesis
    by (simp add: infer_doc_type_cases)
qed

theorem infer_doc_type_by_substring_witness:
  "contains (lower ''My_GDPR.txt'') ''gdpr'' \<and> infer_doc_type ''My_GDPR.txt'' = ''GDPR'' \<and>
   \<not> contains (lower ''Hipaa-soc2.txt'') ''gdpr'' \<and> contains (lower ''Hipaa-soc2.txt'') ''hipaa'' \<and>
   infer_doc_type ''Hipaa-soc2.txt'' = ''HIPAA'' \<and>
   \<not> contains (lower ''SOC2.txt'') ''gdpr'' \<and> \<not> contains (lower ''SOC2.txt'') ''hipaa'' \<and>
   contains (lower ''SOC2.txt'') ''soc2'' \<and> infer_doc_type ''SOC2.txt'' = ''SOC2'' \<and>
   \<not> contains (lower ''notes.txt'') ''gdpr'' \<and> \<not> contains (lower ''notes.txt'') ''hipaa'' \<and>
   \<not> contains (lower ''notes.txt'') ''soc2'' \<and> infer_doc_type ''notes.txt'' = ''General'' \<and>
   contains ''x-gdpr.txt'' ''gdpr'' \<and> infer_doc_type ''x-gdpr.txt'' = ''GDPR''"
proof -
  have 1: "contains (lower ''My_GDPR.txt'') ''gdpr''"
    unfolding str_in_iff [symmetric] by code_simp
  have 2: "\<not> contains (lower ''Hipaa-soc2.txt'') ''gdpr'' \<and> contains (lower ''Hipaa-soc2.txt'') ''hipaa''"
    unfolding str_in_iff [symmetric] by code_simp
  have 3: "\<not> contains (lower ''SOC2.txt'') ''gdpr'' \<and> \<not> contains (lower ''SOC2.txt'') ''hipaa'' \<and>
       contains (lower ''SOC2.txt'') ''soc2''"
    unfolding str_in_iff [symmetric] by code_simp
  have 4: "\<not> contains (lower ''notes.txt'') ''gdpr'' \<and> \<not> contains (lower ''notes.txt'') ''hipaa'' \<and>
       \<not> contains (lower ''notes.txt'') ''soc2''"
    unfolding str_in_iff [symmetric] by code_simp
  have 5: "contains ''x-gdpr.txt'' ''gdpr''"
    unfolding str_in_iff [symmetric] by code_simp
  have a: "infer_doc_type ''My_GDPR.txt'' = ''GDPR''"
    using infer_doc_type_by_substring [of "''My_GDPR.txt''"] 1 by simp
  have b: "infer_doc_type ''Hipaa-soc2.txt'' = ''HIPAA''"
    using infer_doc_type_by_substring [of "''Hipaa-soc2.txt''"] 2 by simp
  have c: "infer_doc_type ''SOC2.txt'' = ''SOC2''"
    using infer_doc_type_by_substring [of "''SOC2.txt''"] 3 by simp
  have d: "infer_doc_type ''notes.txt'' = ''General''"
    using infer_doc_type_by_substring [of "''notes.txt''"] 4 by simp
  have e: "infer_doc_type ''x-gdpr.txt'' = ''GDPR''"
    using infer_doc_type_by_substring [of "''x-gdpr.txt''"] 5 by simp
  from 1 2 3 4 5 a b c d e show ?thesis by (intro conjI) (elim conjE, assumption)+
qed

text \<open>
  C7, as the claim words it, fails on capitals: the file name \<open>GDPR.txt\<close> contains none
  of \<open>gdpr\<close>, \<open>hipaa\<close>, \<open>soc2\<close>, and is given \<open>GDPR\<close>, not \<open>General\<close>.
\<close>

theorem infer_doc_type_capitals_counterexample:
  "\<not> str_in ''gdpr'' ''GDPR.txt'' \<and> \<not> str_in ''hipaa'' ''GDPR.txt'' \<and>
   \<not> str_in ''soc2'' ''GDPR.txt'' \<and>
   infer_doc_type ''GDPR.txt'' = ''GDPR'' \<and> infer_doc_type ''GDPR.txt'' \<noteq> ''General''"
  by code_simp



section \<open>The claims about the insertion loop\<close>

text \<open>
  C5, as the code has it. Take a run of the loop over \<open>n\<close> chunks in which the call of
  \<open>collection.add\<close> for the chunk at position \<open>k\<close> raises an exception derived from
  \<open>Exception\<close> and the call for every other chunk returns, each call seen in the state the
  store has when the loop makes it. Then the loop runs to its end: it reports \<open>n - 1\<close>
  inserted, it prints one warning, the one for position \<open>k\<close> (there is no count of
  errors besides), and the store is what the calls for the chunks before and after \<open>k\<close>
  made of it, in this order.
\<close>

theorem insertion_isolates_one_failure:
  assumes "length ks = length cs" and "length ms = length cs" and "k < length cs"
    and "\<forall>i<length cs. \<forall>st.
           insert_loop add cs ks ms [0..<i] (insert_start s0) = Finished st \<longrightarrow>
           (if i = k then is_Raised (add (store st) (ks ! i, cs ! i, ms ! i))
            else is_Added (add (store st) (ks ! i, cs ! i, ms ! i)))"
  shows "\<exists>r. insert_chunks add cs ks ms s0 = Finished r \<and>
           inserted r = length cs - 1 \<and>
           map fst (warnings r) = [k] \<and>
           store r
             = fold (\<lambda>i s. case add s (ks ! i, cs ! i, ms ! i) of
                              Added s' \<Rightarrow> s' | Raised e \<Rightarrow> s | Escaped b \<Rightarrow> s)
                 ([0..<k] @ [Suc k..<length cs]) s0"
proof -
  have "length ([0..<k] @ [Suc k..<length cs]) = length cs - 1"
    using assms(3) by simp
  with insert_loop_prefix [OF assms(1,2,4), of "length cs"] show ?thesis
    by (simp add: insert_chunks_def filter_neq_upt [OF assms(3)] filter_eq_upt [OF assms(3)])
qed

theorem insertion_isolates_one_failure_witness:
  "insert_chunks rejecting_add example_chunks example_ids example_metas []
     = Finished \<lparr>store = [''f_txt_0'', ''f_txt_2''], inserted = 2,
                 warnings = [(1, StoreError ''ValueError'')]\<rparr> \<and>
   (\<exists>r. insert_chunks bounded_add example_chunks example_ids example_metas [] = Finished r \<and>
        inserted r = 2 \<and> map fst (warnings r) = [2] \<and> store r = [''f_txt_0'', ''f_txt_1''])"
proof -
  have 0: "insert_loop bounded_add example_chunks example_ids example_metas [0..<0] (insert_start [])
           = Finished \<lparr>store = [], inserted = 0, warnings = []\<rparr>"
    by code_simp
  have 1: "insert_loop bounded_add example_chunks example_ids example_metas [0..<1] (insert_start [])
           = Finished \<lparr>store = [''f_txt_0''], inserted = 1, warnings = []\<rparr>"
    by code_simp
  have 2: "insert_loop bounded_add example_chunks example_ids example_metas [0..<2] (insert_start [])
           = Finished \<lparr>store = [''f_txt_0'', ''f_txt_1''], inserted = 2, warnings = []\<rparr>"
    by code_simp
  have a0: "is_Added (bounded_add [] (example_ids ! 0, example_chunks ! 0, example_metas ! 0))"
    by code_simp
  have a1: "is_Added (bounded_add [''f_txt_0''] (example_ids ! 1, example_chunks ! 1, example_metas ! 1))"
    by code_simp
  have a2: "is_Raised (bounded_add [''f_txt_0'', ''f_txt_1'']
                (example_ids ! 2, example_chunks ! 2, example_metas ! 2))"
    by code_simp
  have h1: "length example_ids = length example_chunks"
    by (simp add: example_ids_def example_chunks_def)
  have h2: "length example_metas = length example_chunks"
    by (simp add: example_metas_def example_chunks_def)
  have h3: "2 < length example_chunks"
    by (simp add: example_chunks_def)
  have h4: "\<forall>i<length example_chunks. \<forall>st.
           insert_loop bounded_add example_chunks example_ids example_metas [0..<i] (insert_start [])
             = Finished st \<longrightarrow>
           (if i = 2
            then is_Raised (bounded_add (store st) (example_ids ! i, example_chunks ! i, example_metas ! i))
            else is_Added (bounded_add (store st) (example_ids ! i, example_chunks ! i, example_metas ! i)))"
  proof (intro allI impI)
    fix i :: nat and st :: "(string list, string) insert_state"
    assume "i < length example_chunks"
      and st: "insert_loop bounded_add example_chunks example_ids example_metas [0..<i] (insert_start [])
             = Finished st"
    then have "i = 0 \<or> i = 1 \<or> i = 2" by (auto simp: example_chunks_def)
    then show "if i = 2
            then is_Raised (bounded_add (store st) (example_ids ! i, example_chunks ! i, example_metas ! i))
            else is_Added (bounded_add (store st) (example_ids ! i, example_chunks ! i, example_metas ! i))"
    proof (elim disjE)
      assume i: "i = 0"
      have "st = \<lparr>store = [], inserted = 0, warnings = []\<rparr>"
        using st 0 unfolding i by simp
      then have "store st = []" by simp
      with a0 i show ?thesis by simp
    next
      assume i: "i = 1"
      have "st = \<lparr>store = [''f_txt_0''], inserted = 1, warnings = []\<rparr>"
        using st 1 unfolding i by simp
      then have "store st = [''f_txt_0'']" by simp
      with a1 i show ?thesis by simp
    next
      assume i: "i = 2"
      have "st = \<lparr>store = [''f_txt_0'', ''f_txt_1''], inserted = 2, warnings = []\<rparr>"
        using st 2 unfolding i by simp
      then have "store st = [''f_txt_0'', ''f_txt_1'']" by simp
      with a2 i show ?thesis by simp
    qed
  qed
  have others: "[0..<2] @ [Suc 2..<length example_chunks] = [0, 1]"
    by (simp add: example_chunks_def upt_rec)
  have st: "fold (\<lambda>i s. case bounded_add s (example_ids ! i, example_chunks ! i, example_metas ! i) of
                              Added s' \<Rightarrow> s' | Raised e \<Rightarrow> s | Escaped b \<Rightarrow> s) [0, 1] []
            = [''f_txt_0'', ''f_txt_1'']"
    by code_simp
  have n: "length example_chunks - 1 = 2"
    by (simp add: example_chunks_def)
  have b: "\<exists>r. insert_chunks bounded_add example_chunks example_ids example_metas [] = Finished r \<and>
        inserted r = 2 \<and> map fst (warnings r) = [2] \<and> store r = [''f_txt_0'', ''f_txt_1'']"
    using insertion_isolates_one_failure [OF h1 h2 h3 h4]
    by (simp only: others st n)
  have a: "insert_chunks rejecting_add example_chunks example_ids example_metas []
     = Finished \<lparr>store = [''f_txt_0'', ''f_txt_2''], inserted = 2,
                 warnings = [(1, StoreError ''ValueError'')]\<rparr>"
    by code_simp
  from a b show ?thesis by (rule conjI)
qed

text \<open>
  C5, as the claim words it, fails when what \<open>collection.add\<close> raises is not derived from
  \<open>Exception\<close>. The third store adds \<open>A\<close> and \<open>C\<close> whenever it is asked to and is
  interrupted on \<open>B\<close> only; the handler does not catch the interrupt, the loop is left at
  \<open>B\<close> with one chunk inserted, and \<open>C\<close> is never offered to the store.
\<close>

theorem insertion_aborts_counterexample:
  "is_Added (interrupted_add [] (''f_txt_0'', ''A'', example_metas ! 0)) \<and>
   is_Added (interrupted_add [''f_txt_0''] (''f_txt_2'', ''C'', example_metas ! 2)) \<and>
   is_Escaped (interrupted_add [''f_txt_0''] (''f_txt_1'', ''B'', example_metas ! 1)) \<and>
   insert_chunks interrupted_add example_chunks example_ids example_metas []
     = Aborted ''KeyboardInterrupt'' \<lparr>store = [''f_txt_0''], inserted = 1, warnings = []\<rparr>"
  by code_simp

end
